theory Spec2Isabelle
  imports Complex_Main
begin

section \<open>The face detection application: data model\<close>

text \<open>
  A shallow embedding of \<^verbatim>\<open>src/face_detection.py\<close> (class \<^verbatim>\<open>FaceDetectionApp\<close>):
  the detection loop with its camera error handling, the spatiotemporal duplicate gate,
  the recognition of a face against the gallery, the enrolment of buffered unknown
  faces, and the frame queue between the detection thread and the GUI.

  Python floats (times, scores, thresholds) are modelled as \<open>real\<close>, Python ints as
  \<open>int\<close> or, where they only count, \<open>nat\<close>. The OpenCV functions are not part of
  the repository; they are parameters of the model (record \<open>cv2\<close> below), and the
  similarity score that the specification describes is modelled from its words in a
  section of its own. The Tk
  widgets, the sound, the drawing on the frame, the attendance file and the video
  writer do not feed back into the state modelled here and are left out.
\<close>

subsection \<open>Constants of \<^verbatim>\<open>__init__\<close>\<close>

definition DISTANCE_THRESHOLD :: real where
  "DISTANCE_THRESHOLD = 50"

definition BUFFER_SIZE :: nat where
  "BUFFER_SIZE = 3"

definition PROCESS_INTERVAL :: real where
  "PROCESS_INTERVAL = 5"

definition MIN_RECOGNITION_SIZE :: int where
  "MIN_RECOGNITION_SIZE = 100"

definition max_camera_errors :: int where
  "max_camera_errors = 5"

definition frame_queue_maxlen :: nat where
  "frame_queue_maxlen = 5"

subsection \<open>Images and the OpenCV interface\<close>

text \<open>
  An image is its shape (\<^verbatim>\<open>img.shape\<close>: rows, columns) and its pixel data. What OpenCV
  computes on the pixels is a parameter. \<open>resize\<close> fixes what the code relies on: the
  result of \<^verbatim>\<open>cv2.resize(img, (80, 80))\<close> has shape 80 by 80.
\<close>

record image =
  shape_h :: nat
  shape_w :: nat
  pixels :: "nat list"

record cv2 =
  cvtColor_BGR2GRAY :: "image \<Rightarrow> image"
  cvtColor_GRAY2BGR :: "image \<Rightarrow> image"
  resize_pixels :: "image \<Rightarrow> nat \<Rightarrow> nat \<Rightarrow> nat list"
  matchTemplate_max :: "image \<Rightarrow> image \<Rightarrow> real"

text \<open>\<^verbatim>\<open>cv2.resize(img, (w, h))\<close>.\<close>

definition resize :: "cv2 \<Rightarrow> image \<Rightarrow> nat \<Rightarrow> nat \<Rightarrow> image" where
  "resize cv img w h = \<lparr>shape_h = h, shape_w = w, pixels = resize_pixels cv img w h\<rparr>"

datatype py_error = IndexError | CvError

subsection \<open>The application state\<close>

text \<open>
  \<open>cap\<close> is \<^verbatim>\<open>self.cap\<close>: \<open>None\<close>, or a capture handle with the value of its
  \<^verbatim>\<open>isOpened()\<close>. Two history variables are not fields of the source object:
  \<open>accepted_log\<close> lists every sighting that was ever appended to \<open>saved_faces\<close>
  (pruning does not touch it), and \<open>error_peak\<close> is the largest value that
  \<open>camera_error_count\<close> has been given by an increment.
\<close>

record app =
  running :: bool
  cap :: "bool option"
  camera_error_count :: int
  frame_queue :: "image list"
  saved_faces :: "(int \<times> int \<times> real) list"
  SAVE_INTERVAL :: real
  known_faces :: "image list"
  known_face_names :: "string list"
  next_person_id :: nat
  unknown_faces_buffer :: "image list"
  last_process_time :: real
  MATCH_THRESHOLD :: real
  accepted_log :: "(int \<times> int \<times> real) list"
  error_peak :: int

text \<open>
  One detected face as the loop body sees it after scaling the box back to frame
  coordinates: the box, the grayscale region handed to the recogniser and the colour
  crop \<^verbatim>\<open>frame[y:y+h, x:x+w]\<close>.
\<close>

record detection =
  det_x :: int
  det_y :: int
  det_w :: int
  det_h :: int
  gray_roi :: image
  face_img :: image

text \<open>
  What the outside world answers during one iteration of the loop: whether the camera
  opens when the loop finds it closed, whether the read succeeds, whether the camera
  opens again after a failed read, the clock, whether one of the OpenCV calls that
  prepare the frame (lines 824 to 836) raises, the detected faces and the rendered
  frame.
\<close>

record iteration =
  pre_open_ok :: bool
  read_ok :: bool
  post_open_ok :: bool
  current_time :: real
  prepare_raises :: bool
  faces :: "detection list"
  frame_rgb :: image

datatype flow = Continue | Return

section \<open>The duplicate gate\<close>

text \<open>\<^verbatim>\<open>((center_x - saved_x)**2 + (center_y - saved_y)**2)**0.5\<close>\<close>

definition distance :: "int \<Rightarrow> int \<Rightarrow> int \<Rightarrow> int \<Rightarrow> real" where
  "distance center_x center_y saved_x saved_y =
     sqrt (real_of_int ((center_x - saved_x)\<^sup>2 + (center_y - saved_y)\<^sup>2))"

text \<open>The loop of lines 858 to 866: \<open>save_face\<close> after the scan, which stops at the first hit.\<close>

fun save_face :: "real \<Rightarrow> int \<Rightarrow> int \<Rightarrow> real \<Rightarrow> (int \<times> int \<times> real) list \<Rightarrow> bool" where
  "save_face si center_x center_y now [] = True"
| "save_face si center_x center_y now ((saved_x, saved_y, saved_time) # rest) =
     (if distance center_x center_y saved_x saved_y < DISTANCE_THRESHOLD
         \<and> now - saved_time < si
      then False
      else save_face si center_x center_y now rest)"

text \<open>Line 1007: the sightings that stay after a frame.\<close>

definition clean_up :: "real \<Rightarrow> real \<Rightarrow> (int \<times> int \<times> real) list \<Rightarrow> (int \<times> int \<times> real) list" where
  "clean_up si now sf = filter (\<lambda>(x, y, t). now - t < si) sf"

section \<open>Recognition against the gallery\<close>

text \<open>
  The loop of lines 895 to 901 over \<^verbatim>\<open>enumerate(self.known_faces)\<close>, with the running
  index \<open>i\<close> and the pair \<open>(best_match_score, best_match_name)\<close>. Reading
  \<^verbatim>\<open>self.known_face_names[i]\<close> past the end raises.
\<close>

fun best_match :: "cv2 \<Rightarrow> image \<Rightarrow> image list \<Rightarrow> string list \<Rightarrow> nat \<Rightarrow> real \<times> string
    \<Rightarrow> py_error + (real \<times> string)" where
  "best_match cv roi [] names i best = Inr best"
| "best_match cv roi (known_face # rest) names i (best_match_score, best_match_name) =
     (let max_val = matchTemplate_max cv roi known_face in
      if max_val > best_match_score
      then (if i < length names
            then best_match cv roi rest names (Suc i) (max_val, names ! i)
            else Inl IndexError)
      else best_match cv roi rest names (Suc i) (best_match_score, best_match_name))"

text \<open>Lines 884 to 904: the name given to one detected face.\<close>

definition recognise :: "cv2 \<Rightarrow> app \<Rightarrow> detection \<Rightarrow> py_error + string" where
  "recognise cv st d =
     (if det_w d \<ge> MIN_RECOGNITION_SIZE \<and> det_h d \<ge> MIN_RECOGNITION_SIZE
         \<and> length (known_faces st) > 0
      then (case best_match cv (resize cv (gray_roi d) 80 80) (known_faces st)
                   (known_face_names st) 0 (0, ''Unknown'') of
              Inl e \<Rightarrow> Inl e
            | Inr (best_match_score, best_match_name) \<Rightarrow>
                Inr (if best_match_score > MATCH_THRESHOLD st then best_match_name
                     else ''Unknown''))
      else Inr ''Unknown'')"

section \<open>Enrolment of unknown faces\<close>

text \<open>\<^verbatim>\<open>str(n)\<close> for the non-negative person counter.\<close>

definition digit :: "nat \<Rightarrow> char" where
  "digit d =
     (if d = 0 then CHR ''0'' else if d = 1 then CHR ''1'' else if d = 2 then CHR ''2''
      else if d = 3 then CHR ''3'' else if d = 4 then CHR ''4'' else if d = 5 then CHR ''5''
      else if d = 6 then CHR ''6'' else if d = 7 then CHR ''7'' else if d = 8 then CHR ''8''
      else CHR ''9'')"

fun str :: "nat \<Rightarrow> string" where
  "str n = (if n < 10 then [digit n] else str (n div 10) @ [digit (n mod 10)])"

declare str.simps [simp del]

text \<open>
  The two lines that \<^verbatim>\<open>process_unknown_faces\<close> (1073, 1074) and \<^verbatim>\<open>add_new_person\<close>
  (1114, 1115) share: \<^verbatim>\<open>cv2.resize(cv2.cvtColor(img, cv2.COLOR_BGR2GRAY), (80, 80))\<close>.
\<close>

definition to_gray_80 :: "cv2 \<Rightarrow> image \<Rightarrow> image" where
  "to_gray_80 cv img = resize cv (cvtColor_BGR2GRAY cv img) 80 80"

text \<open>
  \<^verbatim>\<open>add_new_person\<close>: the new name from the counter, the counter incremented, the face
  converted to gray, resized and appended to the gallery with its name.
\<close>

definition add_new_person :: "cv2 \<Rightarrow> image \<Rightarrow> app \<Rightarrow> app" where
  "add_new_person cv face st =
     (let new_name = ''Person_'' @ str (next_person_id st);
          gray_face = to_gray_80 cv face
      in st\<lparr>next_person_id := next_person_id st + 1,
             known_faces := known_faces st @ [gray_face],
             known_face_names := known_face_names st @ [new_name]\<rparr>)"

text \<open>
  The inner loop of lines 1077 to 1084: the face joins the first group whose first
  member it matches above 0.65; \<open>None\<close> when \<open>matched\<close> stays false. \<^verbatim>\<open>group[0]\<close> of
  an empty group would raise.
\<close>

fun join_group :: "cv2 \<Rightarrow> image \<Rightarrow> image list list \<Rightarrow> py_error + image list list option" where
  "join_group cv gray_face [] = Inr None"
| "join_group cv gray_face (grp # rest) =
     (case grp of
        [] \<Rightarrow> Inl IndexError
      | first # others \<Rightarrow>
          if matchTemplate_max cv gray_face first > 65 / 100
          then Inr (Some ((grp @ [gray_face]) # rest))
          else (case join_group cv gray_face rest of
                  Inl e \<Rightarrow> Inl e
                | Inr None \<Rightarrow> Inr None
                | Inr (Some rest') \<Rightarrow> Inr (Some (grp # rest'))))"

text \<open>The outer loop of lines 1072 to 1087 over the buffer.\<close>

fun make_groups :: "cv2 \<Rightarrow> image list \<Rightarrow> image list list \<Rightarrow> py_error + image list list" where
  "make_groups cv [] groups = Inr groups"
| "make_groups cv (face # rest) groups =
     (let gray_face = to_gray_80 cv face in
      case join_group cv gray_face groups of
        Inl e \<Rightarrow> Inl e
      | Inr (Some groups') \<Rightarrow> make_groups cv rest groups'
      | Inr None \<Rightarrow> make_groups cv rest (groups @ [[gray_face]]))"

text \<open>
  Lines 1091 to 1099: the scan for the member of largest \<open>h * w\<close>, with the pair
  \<open>(best_face, best_size)\<close> that starts at \<open>(None, 0)\<close>.
\<close>

fun select_best :: "image list \<Rightarrow> image option \<times> nat \<Rightarrow> image option" where
  "select_best [] (best_face, best_size) = best_face"
| "select_best (face # rest) (best_face, best_size) =
     (let area = shape_h face * shape_w face in
      if area > best_size then select_best rest (Some face, area)
      else select_best rest (best_face, best_size))"

text \<open>
  Lines 1089 to 1102: every group of at least two members is enrolled. Converting a
  \<open>best_face\<close> that is still \<open>None\<close> raises inside OpenCV; the state keeps what was
  enrolled before.
\<close>

fun enrol_groups :: "cv2 \<Rightarrow> image list list \<Rightarrow> app \<Rightarrow> app \<times> py_error option" where
  "enrol_groups cv [] st = (st, None)"
| "enrol_groups cv (grp # rest) st =
     (if length grp \<ge> 2
      then (case select_best grp (None, 0) of
              None \<Rightarrow> (st, Some CvError)
            | Some best_face \<Rightarrow>
                enrol_groups cv rest (add_new_person cv (cvtColor_GRAY2BGR cv best_face) st))
      else enrol_groups cv rest st)"

text \<open>\<^verbatim>\<open>process_unknown_faces\<close>: the state after the call and the exception it leaves with, if any.\<close>

definition process_unknown_faces :: "cv2 \<Rightarrow> app \<Rightarrow> app \<times> py_error option" where
  "process_unknown_faces cv st =
     (if length (unknown_faces_buffer st) < BUFFER_SIZE then (st, None)
      else (case make_groups cv (unknown_faces_buffer st) [] of
              Inl e \<Rightarrow> (st, Some e)
            | Inr groups \<Rightarrow>
                (case enrol_groups cv groups st of
                   (st', Some e) \<Rightarrow> (st', Some e)
                 | (st', None) \<Rightarrow> (st'\<lparr>unknown_faces_buffer := []\<rparr>, None))))"

section \<open>The frame queue\<close>

text \<open>\<^verbatim>\<open>deque.append\<close> of a deque created with \<^verbatim>\<open>maxlen\<close>: a full deque drops its left end.\<close>

definition deque_append :: "nat \<Rightarrow> 'a list \<Rightarrow> 'a \<Rightarrow> 'a list" where
  "deque_append maxlen q x = (if length q \<ge> maxlen then drop 1 (q @ [x]) else q @ [x])"

text \<open>Lines 1011 and 1012: the producer's side.\<close>

definition put_frame :: "'a list \<Rightarrow> 'a \<Rightarrow> 'a list" where
  "put_frame q frame =
     (if length q < frame_queue_maxlen then deque_append frame_queue_maxlen q frame else q)"

text \<open>
  Lines 1144 and 1145 of \<^verbatim>\<open>update_gui\<close>, the consumer's side: the frame that is shown,
  if any, and the queue that is left.
\<close>

definition update_gui :: "'a list \<Rightarrow> 'a option \<times> 'a list" where
  "update_gui q = (case q of [] \<Rightarrow> (None, []) | frame # rest \<Rightarrow> (Some frame, rest))"

text \<open>The frames shown by \<open>n\<close> successive polls with no frame produced in between.\<close>

fun shown :: "nat \<Rightarrow> 'a list \<Rightarrow> 'a list" where
  "shown 0 q = []"
| "shown (Suc n) q =
     (case update_gui q of
        (None, q') \<Rightarrow> shown n q'
      | (Some frame, q') \<Rightarrow> frame # shown n q')"

section \<open>One frame\<close>

text \<open>
  The body of the loop over the detected faces (lines 848 to 1004) for one face: the
  gate, the recognition, and the two branches that record the sighting.
\<close>

definition process_face :: "cv2 \<Rightarrow> real \<Rightarrow> detection \<Rightarrow> app \<Rightarrow> py_error + app" where
  "process_face cv now d st =
     (let center_x = det_x d + det_w d div 2;
          center_y = det_y d + det_h d div 2;
          save = save_face (SAVE_INTERVAL st) center_x center_y now (saved_faces st)
      in case recognise cv st d of
           Inl e \<Rightarrow> Inl e
         | Inr name \<Rightarrow>
             if save \<and> name = ''Unknown''
             then Inr (st\<lparr>unknown_faces_buffer := unknown_faces_buffer st @ [face_img d],
                          saved_faces := saved_faces st @ [(center_x, center_y, now)],
                          accepted_log := accepted_log st @ [(center_x, center_y, now)]\<rparr>)
             else if save
             then Inr (st\<lparr>saved_faces := saved_faces st @ [(center_x, center_y, now)],
                          accepted_log := accepted_log st @ [(center_x, center_y, now)]\<rparr>)
             else Inr st)"

fun process_faces :: "cv2 \<Rightarrow> real \<Rightarrow> detection list \<Rightarrow> app \<Rightarrow> app \<times> py_error option" where
  "process_faces cv now [] st = (st, None)"
| "process_faces cv now (d # ds) st =
     (case process_face cv now d st of
        Inl e \<Rightarrow> (st, Some e)
      | Inr st' \<Rightarrow> process_faces cv now ds st')"

text \<open>
  Lines 810 to 1012, after a successful read: the periodic enrolment, the faces, the
  pruning of old sightings and the hand-over of the rendered frame.
\<close>

definition process_frame :: "cv2 \<Rightarrow> iteration \<Rightarrow> app \<Rightarrow> app \<times> py_error option" where
  "process_frame cv e st =
     (if prepare_raises e then (st, Some CvError)
      else
        (case (if current_time e - last_process_time st > PROCESS_INTERVAL
               then (case process_unknown_faces cv st of
                       (st1, None) \<Rightarrow> (st1\<lparr>last_process_time := current_time e\<rparr>, None)
                     | (st1, Some err) \<Rightarrow> (st1, Some err))
               else (st, None)) of
           (st1, Some err) \<Rightarrow> (st1, Some err)
         | (st1, None) \<Rightarrow>
             (case process_faces cv (current_time e) (faces e) st1 of
                (st2, Some err) \<Rightarrow> (st2, Some err)
              | (st2, None) \<Rightarrow>
                  (st2\<lparr>saved_faces :=
                          clean_up (SAVE_INTERVAL st2) (current_time e) (saved_faces st2),
                        frame_queue := put_frame (frame_queue st2) (frame_rgb e)\<rparr>, None))))"

section \<open>The detection loop\<close>

text \<open>\<^verbatim>\<open>stop_detection\<close>: the flag is cleared, the handle released and forgotten.\<close>

definition stop_detection :: "app \<Rightarrow> app" where
  "stop_detection st = st\<lparr>running := False, cap := None\<rparr>"

text \<open>\<^verbatim>\<open>self.camera_error_count += 1\<close>, and the largest value so far.\<close>

definition count_error :: "app \<Rightarrow> app" where
  "count_error st =
     st\<lparr>camera_error_count := camera_error_count st + 1,
        error_peak := max (error_peak st) (camera_error_count st + 1)\<rparr>"

text \<open>
  The three places where an error has been counted and the budget is checked
  (lines 774, 792 and 1027): beyond \<open>max_camera_errors\<close> the session is stopped and
  the loop returns.
\<close>

definition over_budget :: "app \<Rightarrow> bool" where
  "over_budget st = (camera_error_count st > max_camera_errors)"

text \<open>The handler of lines 1024 to 1031.\<close>

definition on_exception :: "app \<Rightarrow> app \<times> flow" where
  "on_exception st =
     (let st1 = count_error st in
      if over_budget st1 then (stop_detection st1, Return) else (st1, Continue))"

text \<open>Lines 789 to 1022: the read and what follows it, on an open camera.\<close>

definition read_and_process :: "cv2 \<Rightarrow> iteration \<Rightarrow> app \<Rightarrow> app \<times> flow" where
  "read_and_process cv e st =
     (if \<not> read_ok e
      then (let st1 = count_error st in
            if over_budget st1 then (stop_detection st1, Return)
            else (let st2 = st1\<lparr>cap := Some (post_open_ok e)\<rparr> in
                  if post_open_ok e then (st2\<lparr>camera_error_count := 0\<rparr>, Continue)
                  else (st2, Continue)))
      else (case process_frame cv e (st\<lparr>camera_error_count := 0\<rparr>) of
              (st1, None) \<Rightarrow> (st1, Continue)
            | (st1, Some err) \<Rightarrow> on_exception st1))"

text \<open>One pass through the body of \<^verbatim>\<open>while self.running\<close> (lines 767 to 1031).\<close>

definition loop_body :: "cv2 \<Rightarrow> iteration \<Rightarrow> app \<Rightarrow> app \<times> flow" where
  "loop_body cv e st =
     (if cap st = None \<or> cap st = Some False
      then (let st1 = st\<lparr>cap := Some (pre_open_ok e)\<rparr> in
            if \<not> pre_open_ok e
            then (let st2 = count_error st1 in
                  if over_budget st2 then (stop_detection st2, Return) else (st2, Continue))
            else read_and_process cv e (st1\<lparr>camera_error_count := 0\<rparr>))
      else read_and_process cv e st)"

text \<open>
  \<^verbatim>\<open>detection_loop\<close> against the answers of the outside world, one \<open>iteration\<close> per pass.
  The loop ends when \<open>running\<close> is false or the body returns; a run that is still
  going when the answers end is cut there.
\<close>

fun detection_loop :: "cv2 \<Rightarrow> iteration list \<Rightarrow> app \<Rightarrow> app" where
  "detection_loop cv [] st = st"
| "detection_loop cv (e # es) st =
     (if running st
      then (case loop_body cv e st of
              (st', Return) \<Rightarrow> st'
            | (st', Continue) \<Rightarrow> detection_loop cv es st')
      else st)"

text \<open>
  \<^verbatim>\<open>start_detection\<close>, with the answer of the camera (\<^verbatim>\<open>isOpened()\<close> of the new handle) as
  argument: nothing when already running; a camera that does not open stops the
  session at once, one that does resets the error counter.
\<close>

definition start_detection :: "bool \<Rightarrow> app \<Rightarrow> app" where
  "start_detection opened st =
     (if \<not> running st
      then (let st1 = st\<lparr>running := True, cap := Some opened\<rparr> in
            if \<not> opened then stop_detection st1
            else st1\<lparr>camera_error_count := 0\<rparr>)
      else st)"

text \<open>\<^verbatim>\<open>update_save_interval\<close> (lines 506 and 507), the callback of the slider.\<close>

definition update_save_interval :: "real \<Rightarrow> app \<Rightarrow> app" where
  "update_save_interval v st = st\<lparr>SAVE_INTERVAL := v\<rparr>"

section \<open>The similarity scorer of the specification\<close>






section \<open>Reference inputs\<close>

text \<open>
  The state that \<^verbatim>\<open>__init__\<close> builds when the directory of known faces is empty, with
  the clock at 0.
\<close>

definition init_app :: app where
  "init_app =
     \<lparr>running = False, cap = None, camera_error_count = 0, frame_queue = [],
      saved_faces = [], SAVE_INTERVAL = 3, known_faces = [], known_face_names = [],
      next_person_id = 1, unknown_faces_buffer = [], last_process_time = 0,
      MATCH_THRESHOLD = 65 / 100, accepted_log = [], error_peak = 0\<rparr>"

text \<open>
  A stand-in for OpenCV on which the theorems are instantiated: the colour conversions
  and the interpolation keep the pixel data, and two images score 1 when their data
  agree, 8/10 when only their first pixel agrees, and 0 otherwise.
\<close>

definition stub_cv :: cv2 where
  "stub_cv =
     \<lparr>cvtColor_BGR2GRAY = (\<lambda>img. img),
      cvtColor_GRAY2BGR = (\<lambda>img. img),
      resize_pixels = (\<lambda>img w h. pixels img),
      matchTemplate_max = (\<lambda>a b. if pixels a = pixels b then 1
                                 else if take 1 (pixels a) = take 1 (pixels b) then 8 / 10
                                 else 0)\<rparr>"

definition picture :: "nat \<Rightarrow> nat \<Rightarrow> nat list \<Rightarrow> image" where
  "picture h w px = \<lparr>shape_h = h, shape_w = w, pixels = px\<rparr>"

text \<open>
  The similarity scores of a detected face against the gallery, in gallery order.
\<close>

definition gallery_scores :: "cv2 \<Rightarrow> app \<Rightarrow> detection \<Rightarrow> real list" where
  "gallery_scores cv st d =
     map (matchTemplate_max cv (resize cv (gray_roi d) 80 80)) (known_faces st)"

text \<open>A gallery of one identity, and a face large enough to be recognised.\<close>

definition alice_app :: app where
  "alice_app = init_app\<lparr>known_faces := [picture 80 80 [7, 1]], known_face_names := [''Alice'']\<rparr>"

definition big_face :: detection where
  "big_face = \<lparr>det_x = 200, det_y = 120, det_w = 160, det_h = 160,
               gray_roi = picture 120 120 [7, 2], face_img = picture 160 160 [7, 2]\<rparr>"

text \<open>
  Three crops for the enrolment: \<open>crop_a\<close> and the larger \<open>crop_b\<close> show the same face,
  \<open>crop_c\<close> another one.
\<close>

definition crop_a :: image where "crop_a = picture 100 100 [5, 3]"
definition crop_b :: image where "crop_b = picture 200 200 [5, 4]"
definition crop_c :: image where "crop_c = picture 150 150 [9, 9]"

section \<open>Projections of the state\<close>

text \<open>What the enrolment leaves alone, and what the handling of one face leaves alone.\<close>

definition outside_gallery ::
  "app \<Rightarrow> (bool \<times> bool option \<times> int \<times> int) \<times> (real \<times> real \<times> real) \<times>
     image list \<times> (int \<times> int \<times> real) list \<times> (int \<times> int \<times> real) list" where
  "outside_gallery st =
     ((running st, cap st, camera_error_count st, error_peak st),
      (SAVE_INTERVAL st, MATCH_THRESHOLD st, last_process_time st),
      frame_queue st, saved_faces st, accepted_log st)"

definition outside_gate ::
  "app \<Rightarrow> (bool \<times> bool option \<times> int \<times> int) \<times> (real \<times> real \<times> real) \<times>
     image list \<times> image list \<times> string list \<times> nat" where
  "outside_gate st =
     ((running st, cap st, camera_error_count st, error_peak st),
      (SAVE_INTERVAL st, MATCH_THRESHOLD st, last_process_time st),
      frame_queue st, known_faces st, known_face_names st, next_person_id st)"

text \<open>An iteration without faces, and a state whose frame queue is full.\<close>

definition quiet :: iteration where
  "quiet = \<lparr>pre_open_ok = True, read_ok = True, post_open_ok = True, current_time = 2,
            prepare_raises = False, faces = [], frame_rgb = picture 480 640 [6]\<rparr>"

definition full_app :: app where
  "full_app = init_app\<lparr>frame_queue := [picture 480 640 [1], picture 480 640 [2],
     picture 480 640 [3], picture 480 640 [4], picture 480 640 [5]]\<rparr>"

section \<open>Sightings that repeat each other\<close>

text \<open>
  Two sightings are in conflict when their centres are closer than
  \<open>DISTANCE_THRESHOLD\<close> and their timestamps less than the save interval apart.
\<close>

definition conflict :: "real \<Rightarrow> int \<times> int \<times> real \<Rightarrow> int \<times> int \<times> real \<Rightarrow> bool" where
  "conflict si a b =
     (case a of (ax, ay, ta) \<Rightarrow> case b of (bx, by, tb) \<Rightarrow>
        distance ax ay bx by < DISTANCE_THRESHOLD \<and> \<bar>ta - tb\<bar> < si)"

fun no_conflicts :: "real \<Rightarrow> (int \<times> int \<times> real) list \<Rightarrow> bool" where
  "no_conflicts si [] = True"
| "no_conflicts si (a # rest) = (list_all (\<lambda>b. \<not> conflict si a b) rest \<and> no_conflicts si rest)"

text \<open>
  The invariant of the gate, for a clock that has reached \<open>lo\<close>: the accepted sightings
  are free of conflicts, none is later than \<open>lo\<close>, and each is still recorded or at
  least the save interval old.
\<close>

definition gate_inv :: "real \<Rightarrow> real \<Rightarrow> app \<Rightarrow> bool" where
  "gate_inv si lo st =
     (no_conflicts si (accepted_log st) \<and>
      (\<forall>(x, y, t)\<in>set (accepted_log st).
          t \<le> lo \<and> ((x, y, t) \<in> set (saved_faces st) \<or> si \<le> lo - t)))"

text \<open>A run of three frames in front of a camera that works.\<close>

definition face_at :: "int \<Rightarrow> int \<Rightarrow> nat list \<Rightarrow> detection" where
  "face_at x y px = \<lparr>det_x = x, det_y = y, det_w = 120, det_h = 120,
                      gray_roi = picture 90 90 px, face_img = picture 120 120 px\<rparr>"

definition frame_with :: "real \<Rightarrow> detection list \<Rightarrow> iteration" where
  "frame_with now ds = \<lparr>pre_open_ok = True, read_ok = True, post_open_ok = True,
       current_time = now, prepare_raises = False, faces = ds, frame_rgb = picture 480 640 [6]\<rparr>"

definition watch :: "iteration list" where
  "watch = [frame_with 1 [face_at 100 100 [5, 3]],
            frame_with 2 [face_at 110 105 [5, 3], face_at 400 100 [9, 9]],
            frame_with 5 [face_at 100 100 [5, 3]]]"

section \<open>Runs of the camera\<close>




text \<open>
  The gallery keeps one name per template; the groups of an enrolment pass are not
  empty and hold normalised crops.
\<close>

definition aligned :: "app \<Rightarrow> bool" where
  "aligned st = (length (known_face_names st) = length (known_faces st))"







section \<open>Enrolment below the buffer size\<close>

text \<open>
  C9. When \<^verbatim>\<open>process_unknown_faces\<close> is called with fewer than \<open>BUFFER_SIZE\<close> (3) crops
  in the buffer it returns at once: the whole state, and so the gallery, the identity
  counter and the buffer, is what it was, and no exception is raised.
\<close>

theorem process_unknown_faces_below_buffer_size:
  "length (unknown_faces_buffer st) < BUFFER_SIZE \<Longrightarrow> process_unknown_faces cv st = (st, None)"
  by (simp add: process_unknown_faces_def)

theorem process_unknown_faces_below_buffer_size_witness:
  "length (unknown_faces_buffer
      (init_app\<lparr>unknown_faces_buffer := [picture 120 110 [1, 2], picture 130 140 [1, 3]]\<rparr>))
     < BUFFER_SIZE
   \<and> process_unknown_faces stub_cv
       (init_app\<lparr>unknown_faces_buffer := [picture 120 110 [1, 2], picture 130 140 [1, 3]]\<rparr>)
     = (init_app\<lparr>unknown_faces_buffer := [picture 120 110 [1, 2], picture 130 140 [1, 3]]\<rparr>,
        None)"
proof -
  let ?st = "init_app\<lparr>unknown_faces_buffer := [picture 120 110 [1, 2], picture 130 140 [1, 3]]\<rparr>"
  have small: "length (unknown_faces_buffer ?st) < BUFFER_SIZE"
    by (simp add: BUFFER_SIZE_def)
  from small process_unknown_faces_below_buffer_size [OF small, of stub_cv]
  show ?thesis by (rule conjI)
qed

section \<open>Faces too small to recognise\<close>

text \<open>
  C4. A detected face whose box is narrower or lower than \<open>MIN_RECOGNITION_SIZE\<close>
  (100) is named Unknown, whatever the gallery holds and whatever OpenCV would score.
\<close>

theorem recognise_small_box_unknown:
  "det_w d < MIN_RECOGNITION_SIZE \<or> det_h d < MIN_RECOGNITION_SIZE \<Longrightarrow>
     recognise cv st d = Inr ''Unknown''"
  by (auto simp: recognise_def)

theorem recognise_small_box_unknown_witness:
  "(det_w \<lparr>det_x = 10, det_y = 20, det_w = 99, det_h = 150,
           gray_roi = picture 112 74 [7, 1], face_img = picture 150 99 [7, 1]\<rparr>
      < MIN_RECOGNITION_SIZE
    \<or> det_h \<lparr>det_x = 10, det_y = 20, det_w = 99, det_h = 150,
           gray_roi = picture 112 74 [7, 1], face_img = picture 150 99 [7, 1]\<rparr>
      < MIN_RECOGNITION_SIZE)
   \<and> recognise stub_cv
        (init_app\<lparr>known_faces := [picture 80 80 [7, 1]], known_face_names := [''Alice'']\<rparr>)
        \<lparr>det_x = 10, det_y = 20, det_w = 99, det_h = 150,
         gray_roi = picture 112 74 [7, 1], face_img = picture 150 99 [7, 1]\<rparr>
      = Inr ''Unknown''"
proof -
  let ?d = "\<lparr>det_x = 10, det_y = 20, det_w = 99, det_h = 150,
             gray_roi = picture 112 74 [7, 1], face_img = picture 150 99 [7, 1]\<rparr>"
  have small: "det_w ?d < MIN_RECOGNITION_SIZE \<or> det_h ?d < MIN_RECOGNITION_SIZE"
    by (simp add: MIN_RECOGNITION_SIZE_def)
  from small recognise_small_box_unknown [OF small] show ?thesis by (rule conjI)
qed

section \<open>The frame queue between the loop and the GUI\<close>

text \<open>
  Successive polls show the queued frames in the order of their production, one per
  poll.
\<close>

lemma update_gui_Cons: "update_gui (frame # q) = (Some frame, q)"
  by (simp add: update_gui_def)

text \<open>
  C7, as stated, fails: with three frames queued the poll shows the oldest one and
  leaves the two newer ones queued.
\<close>

theorem update_gui_shows_oldest_counterexample:
  "update_gui [1, 2, 3 :: nat] = (Some 1, [2, 3])"
  by (simp add: update_gui_def)

text \<open>
  C7, amended. A poll on a non-empty queue shows the oldest queued frame and removes
  only that one, so \<open>n\<close> successive polls show the \<open>n\<close> oldest frames in the order of
  their production: no queued frame is skipped.
\<close>

theorem shown_is_fifo: "shown n q = take n q"
  by (induction n arbitrary: q) (auto simp: update_gui_def split: list.splits)

section \<open>Recognition against the gallery\<close>

text \<open>
  The scan of the gallery: it ends with the largest score, or 0 when no score is
  positive, and with the name at the first index that reaches it.
\<close>

lemma best_match_result:
  "length names = i + length fs \<Longrightarrow>
   \<exists>bs' bn'. best_match cv roi fs names i (bs, bn) = Inr (bs', bn') \<and>
     bs' = Max (insert bs (set (map (matchTemplate_max cv roi) fs))) \<and>
     ((\<forall>s\<in>set (map (matchTemplate_max cv roi) fs). s \<le> bs) \<longrightarrow> bn' = bn) \<and>
     ((\<exists>s\<in>set (map (matchTemplate_max cv roi) fs). bs < s) \<longrightarrow>
        (\<exists>k<length fs. bn' = names ! (i + k) \<and> matchTemplate_max cv roi (fs ! k) = bs' \<and>
           (\<forall>j<k. matchTemplate_max cv roi (fs ! j) < bs')))"
proof (induction fs arbitrary: i bs bn)
  case Nil
  then show ?case by simp
next
  case (Cons f fs)
  let ?sc = "matchTemplate_max cv roi"
  have len: "length names = Suc i + length fs" using Cons.prems by simp
  show ?case
  proof (cases "?sc f > bs")
    case True
    from Cons.IH [OF len, of "?sc f" "names ! i"]
    obtain bs' bn' where
      r: "best_match cv roi fs names (Suc i) (?sc f, names ! i) = Inr (bs', bn')"
      and m: "bs' = Max (insert (?sc f) (set (map ?sc fs)))"
      and same: "(\<forall>s\<in>set (map ?sc fs). s \<le> ?sc f) \<longrightarrow> bn' = names ! i"
      and later: "(\<exists>s\<in>set (map ?sc fs). ?sc f < s) \<longrightarrow>
        (\<exists>k<length fs. bn' = names ! (Suc i + k) \<and> ?sc (fs ! k) = bs' \<and>
           (\<forall>j<k. ?sc (fs ! j) < bs'))"
      by blast
    have i_ok: "i < length names" using Cons.prems by simp
    have eq: "best_match cv roi (f # fs) names i (bs, bn) = Inr (bs', bn')"
      using True i_ok r by simp
    have ge0: "?sc f \<le> Max (insert (?sc f) (set (map ?sc fs)))"
      by (rule Max_ge) auto
    have m': "bs' = Max (insert bs (set (map ?sc (f # fs))))"
    proof -
      have unf: "set (map ?sc (f # fs)) = insert (?sc f) (set (map ?sc fs))"
        by simp
      have "Max (insert bs (insert (?sc f) (set (map ?sc fs)))) =
            max bs (Max (insert (?sc f) (set (map ?sc fs))))"
        by (rule Max_insert) auto
      also have "\<dots> = Max (insert (?sc f) (set (map ?sc fs)))"
        using ge0 True by (intro max_absorb2) linarith
      finally show ?thesis by (simp only: unf m)
    qed
    have ge: "?sc f \<le> bs'" unfolding m by (rule Max_ge) auto
    have first: "\<exists>k<length (f # fs). bn' = names ! (i + k) \<and> ?sc ((f # fs) ! k) = bs' \<and>
           (\<forall>j<k. ?sc ((f # fs) ! j) < bs')"
    proof (cases "\<exists>s\<in>set (map ?sc fs). ?sc f < s")
      case True
      with later obtain k where k: "k < length fs" "bn' = names ! (Suc i + k)"
        "?sc (fs ! k) = bs'" "\<forall>j<k. ?sc (fs ! j) < bs'" by blast
      from True obtain s where s: "s \<in> set (map ?sc fs)" "?sc f < s" by blast
      have "s \<le> bs'" unfolding m by (rule Max_ge) (use s in auto)
      with s have lt: "?sc f < bs'" by simp
      have "\<forall>j<Suc k. ?sc ((f # fs) ! j) < bs'"
      proof (intro allI impI)
        fix j assume "j < Suc k"
        then show "?sc ((f # fs) ! j) < bs'"
          using lt k(4) by (cases j) auto
      qed
      with k show ?thesis by (intro exI [of _ "Suc k"]) simp
    next
      case False
      then have all: "\<forall>s\<in>set (map ?sc fs). s \<le> ?sc f" by (auto simp: not_less)
      with same have bn': "bn' = names ! i" by blast
      have "bs' = ?sc f"
      proof (rule antisym)
        show "bs' \<le> ?sc f" unfolding m using all by (intro Max.boundedI) auto
        show "?sc f \<le> bs'" by (rule ge)
      qed
      with bn' show ?thesis by (intro exI [of _ 0]) simp
    qed
    have notall: "\<not> (\<forall>s\<in>set (map ?sc (f # fs)). s \<le> bs)" using True by auto
    from eq m' first notall show ?thesis by blast
  next
    case False
    then have le: "?sc f \<le> bs" by simp
    from Cons.IH [OF len, of bs bn]
    obtain bs' bn' where
      r: "best_match cv roi fs names (Suc i) (bs, bn) = Inr (bs', bn')"
      and m: "bs' = Max (insert bs (set (map ?sc fs)))"
      and same: "(\<forall>s\<in>set (map ?sc fs). s \<le> bs) \<longrightarrow> bn' = bn"
      and later: "(\<exists>s\<in>set (map ?sc fs). bs < s) \<longrightarrow>
        (\<exists>k<length fs. bn' = names ! (Suc i + k) \<and> ?sc (fs ! k) = bs' \<and>
           (\<forall>j<k. ?sc (fs ! j) < bs'))"
      by blast
    have eq: "best_match cv roi (f # fs) names i (bs, bn) = Inr (bs', bn')"
      using False r by simp
    have bsle: "bs \<le> bs'" unfolding m by (rule Max_ge) auto
    have m': "bs' = Max (insert bs (set (map ?sc (f # fs))))"
    proof -
      have unf: "set (map ?sc (f # fs)) = insert (?sc f) (set (map ?sc fs))"
        by simp
      have "Max (insert bs (insert (?sc f) (set (map ?sc fs)))) =
            Max (insert (?sc f) (insert bs (set (map ?sc fs))))"
        by (simp only: insert_commute)
      also have "\<dots> = max (?sc f) (Max (insert bs (set (map ?sc fs))))"
        by (rule Max_insert) auto
      also have "\<dots> = Max (insert bs (set (map ?sc fs)))"
        using le bsle [unfolded m] by (intro max_absorb2) linarith
      finally show ?thesis by (simp only: unf m)
    qed
    have same': "(\<forall>s\<in>set (map ?sc (f # fs)). s \<le> bs) \<longrightarrow> bn' = bn"
      using same by simp
    have later': "(\<exists>s\<in>set (map ?sc (f # fs)). bs < s) \<longrightarrow>
        (\<exists>k<length (f # fs). bn' = names ! (i + k) \<and> ?sc ((f # fs) ! k) = bs' \<and>
           (\<forall>j<k. ?sc ((f # fs) ! j) < bs'))"
    proof
      assume "\<exists>s\<in>set (map ?sc (f # fs)). bs < s"
      with le have ex: "\<exists>s\<in>set (map ?sc fs). bs < s" by auto
      with later obtain k where k: "k < length fs" "bn' = names ! (Suc i + k)"
        "?sc (fs ! k) = bs'" "\<forall>j<k. ?sc (fs ! j) < bs'" by blast
      from ex obtain s where s: "s \<in> set (map ?sc fs)" "bs < s" by blast
      have "s \<le> bs'" unfolding m by (rule Max_ge) (use s in auto)
      with s le have lt: "?sc f < bs'" by simp
      have "\<forall>j<Suc k. ?sc ((f # fs) ! j) < bs'"
      proof (intro allI impI)
        fix j assume "j < Suc k"
        then show "?sc ((f # fs) ! j) < bs'"
          using lt k(4) by (cases j) auto
      qed
      with k show "\<exists>k<length (f # fs). bn' = names ! (i + k) \<and> ?sc ((f # fs) ! k) = bs' \<and>
           (\<forall>j<k. ?sc ((f # fs) ! j) < bs')"
        by (intro exI [of _ "Suc k"]) simp
    qed
    from eq m' same' later' show ?thesis by blast
  qed
qed

lemma Max_insert0:
  "xs \<noteq> [] \<Longrightarrow> Max (insert (0::real) (set xs)) = max 0 (Max (set xs))"
  by (rule Max_insert) auto

text \<open>
  C3. For a face of at least \<open>MIN_RECOGNITION_SIZE\<close> in both dimensions and a non-empty
  gallery whose names are aligned with its templates, with a threshold that is not
  negative (the slider offers 0.5 to 0.9): when the largest score over the gallery
  exceeds \<open>MATCH_THRESHOLD\<close>, the name returned is that of the first gallery entry that
  reaches the largest score; otherwise it is Unknown. So, unless an identity is itself
  called Unknown, a gallery name is returned exactly when the largest score exceeds the
  threshold. The witness is the scenario of the specification: a face that scores 0.80
  against the only template is Alice at threshold 0.65 and Unknown at 0.85.
\<close>

theorem recognise_best_above_threshold:
  assumes w: "det_w d \<ge> MIN_RECOGNITION_SIZE" and h: "det_h d \<ge> MIN_RECOGNITION_SIZE"
    and gallery: "known_faces st \<noteq> []"
    and aligned: "length (known_face_names st) = length (known_faces st)"
    and thr: "0 \<le> MATCH_THRESHOLD st"
  shows "(MATCH_THRESHOLD st < Max (set (gallery_scores cv st d)) \<longrightarrow>
           (\<exists>k<length (known_faces st).
              recognise cv st d = Inr (known_face_names st ! k) \<and>
              gallery_scores cv st d ! k = Max (set (gallery_scores cv st d)) \<and>
              (\<forall>j<k. gallery_scores cv st d ! j < Max (set (gallery_scores cv st d))))) \<and>
         (Max (set (gallery_scores cv st d)) \<le> MATCH_THRESHOLD st \<longrightarrow>
            recognise cv st d = Inr ''Unknown'') \<and>
         (''Unknown'' \<notin> set (known_face_names st) \<longrightarrow>
            ((\<exists>n\<in>set (known_face_names st). recognise cv st d = Inr n) \<longleftrightarrow>
             MATCH_THRESHOLD st < Max (set (gallery_scores cv st d))))"
proof -
  let ?roi = "resize cv (gray_roi d) 80 80"
  let ?sc = "matchTemplate_max cv ?roi"
  let ?S = "gallery_scores cv st d"
  have S: "?S = map ?sc (known_faces st)" by (simp add: gallery_scores_def)
  have Sne: "?S \<noteq> []" using gallery by (simp add: S)
  have len: "length (known_face_names st) = 0 + length (known_faces st)"
    using aligned by simp
  from best_match_result [OF len, of cv ?roi 0 "''Unknown''"]
  obtain bs' bn' where
    r: "best_match cv ?roi (known_faces st) (known_face_names st) 0 (0, ''Unknown'') = Inr (bs', bn')"
    and m: "bs' = Max (insert 0 (set ?S))"
    and same: "(\<forall>s\<in>set ?S. s \<le> 0) \<longrightarrow> bn' = ''Unknown''"
    and later: "(\<exists>s\<in>set ?S. 0 < s) \<longrightarrow>
        (\<exists>k<length (known_faces st). bn' = known_face_names st ! (0 + k) \<and>
           ?sc (known_faces st ! k) = bs' \<and> (\<forall>j<k. ?sc (known_faces st ! j) < bs'))"
    unfolding S by blast
  have bs': "bs' = max 0 (Max (set ?S))" unfolding m by (rule Max_insert0 [OF Sne])
  have rec: "recognise cv st d = Inr (if bs' > MATCH_THRESHOLD st then bn' else ''Unknown'')"
    using w h gallery r by (simp add: recognise_def)
  have MaxIn: "Max (set ?S) \<in> set ?S" using Sne by (intro Max_in) auto
  have above: "\<exists>k<length (known_faces st).
              recognise cv st d = Inr (known_face_names st ! k) \<and>
              ?S ! k = Max (set ?S) \<and> (\<forall>j<k. ?S ! j < Max (set ?S))"
    if gt: "MATCH_THRESHOLD st < Max (set ?S)"
  proof -
    from gt thr have pos: "0 < Max (set ?S)" by linarith
    then have eq: "bs' = Max (set ?S)" using bs' by simp
    from pos MaxIn have "\<exists>s\<in>set ?S. 0 < s" by blast
    with later obtain k where k: "k < length (known_faces st)"
      "bn' = known_face_names st ! k" "?sc (known_faces st ! k) = bs'"
      "\<forall>j<k. ?sc (known_faces st ! j) < bs'" by auto
    have "recognise cv st d = Inr (known_face_names st ! k)"
      using rec gt eq k(2) by simp
    moreover have "?S ! k = Max (set ?S)" using k(1,3) eq by (simp add: S)
    moreover have "\<forall>j<k. ?S ! j < Max (set ?S)" using k(1,4) eq by (simp add: S)
    ultimately show ?thesis using k(1) by blast
  qed
  have below: "recognise cv st d = Inr ''Unknown''" if le: "Max (set ?S) \<le> MATCH_THRESHOLD st"
  proof -
    have "bs' \<le> MATCH_THRESHOLD st" using bs' le thr by simp
    then show ?thesis using rec by simp
  qed
  have iff: "(\<exists>n\<in>set (known_face_names st). recognise cv st d = Inr n) \<longleftrightarrow>
             MATCH_THRESHOLD st < Max (set ?S)"
    if unk: "''Unknown'' \<notin> set (known_face_names st)"
  proof
    assume "\<exists>n\<in>set (known_face_names st). recognise cv st d = Inr n"
    then obtain n where n: "n \<in> set (known_face_names st)" "recognise cv st d = Inr n" by blast
    show "MATCH_THRESHOLD st < Max (set ?S)"
    proof (rule ccontr)
      assume "\<not> MATCH_THRESHOLD st < Max (set ?S)"
      then have "recognise cv st d = Inr ''Unknown''" using below by simp
      with n unk show False by simp
    qed
  next
    assume "MATCH_THRESHOLD st < Max (set ?S)"
    from above [OF this] obtain k where "k < length (known_faces st)"
      "recognise cv st d = Inr (known_face_names st ! k)" by blast
    then show "\<exists>n\<in>set (known_face_names st). recognise cv st d = Inr n"
      using aligned by (intro bexI [of _ "known_face_names st ! k"]) simp_all
  qed
  from above below iff show ?thesis by blast
qed

lemma alice_app_fields:
  "known_faces alice_app = [picture 80 80 [7, 1]]"
  "known_face_names alice_app = [''Alice'']"
  "MATCH_THRESHOLD alice_app = 65 / 100"
  by (simp_all add: alice_app_def init_app_def)

lemma big_face_fields:
  "det_w big_face = 160" "det_h big_face = 160" "gray_roi big_face = picture 120 120 [7, 2]"
  by (simp_all add: big_face_def)

theorem recognise_best_above_threshold_witness:
  "gallery_scores stub_cv alice_app big_face = [8 / 10]
   \<and> recognise stub_cv alice_app big_face = Inr ''Alice''
   \<and> recognise stub_cv (alice_app\<lparr>MATCH_THRESHOLD := 85 / 100\<rparr>) big_face = Inr ''Unknown''"
proof -
  let ?hi = "alice_app\<lparr>MATCH_THRESHOLD := 85 / 100\<rparr>"
  have w: "det_w big_face \<ge> MIN_RECOGNITION_SIZE" and h: "det_h big_face \<ge> MIN_RECOGNITION_SIZE"
    by (simp_all add: big_face_fields MIN_RECOGNITION_SIZE_def)
  have sc: "gallery_scores stub_cv alice_app big_face = [8 / 10]"
    by (simp add: gallery_scores_def alice_app_fields big_face_fields stub_cv_def resize_def
        picture_def)
  have sc': "gallery_scores stub_cv ?hi big_face = [8 / 10]"
    by (simp add: gallery_scores_def alice_app_fields big_face_fields stub_cv_def resize_def
        picture_def)
  have lo: "MATCH_THRESHOLD alice_app < Max (set (gallery_scores stub_cv alice_app big_face))"
    by (simp add: sc alice_app_fields)
  have hi: "Max (set (gallery_scores stub_cv ?hi big_face)) \<le> MATCH_THRESHOLD ?hi"
    using sc' by simp
  have "\<exists>k<length (known_faces alice_app).
          recognise stub_cv alice_app big_face = Inr (known_face_names alice_app ! k) \<and>
          gallery_scores stub_cv alice_app big_face ! k
            = Max (set (gallery_scores stub_cv alice_app big_face)) \<and>
          (\<forall>j<k. gallery_scores stub_cv alice_app big_face ! j
            < Max (set (gallery_scores stub_cv alice_app big_face)))"
    using recognise_best_above_threshold [OF w h, of alice_app stub_cv] lo
    by (simp add: alice_app_fields)
  then have a: "recognise stub_cv alice_app big_face = Inr ''Alice''"
    by (auto simp: alice_app_fields)
  have b: "recognise stub_cv ?hi big_face = Inr ''Unknown''"
    using recognise_best_above_threshold [OF w h, of ?hi stub_cv] hi
    by (simp add: alice_app_fields del: Max_less_iff Max_le_iff)
  from sc a b show ?thesis by blast
qed

section \<open>Enrolment of a matching pair\<close>

lemma to_gray_80_shape [simp]:
  "shape_h (to_gray_80 cv img) = 80" "shape_w (to_gray_80 cv img) = 80"
  by (simp_all add: to_gray_80_def resize_def)

text \<open>
  The scan for the largest area keeps the first member of a group when no later member
  is strictly larger; among crops normalised to 80 by 80 that is always the case.
\<close>

lemma select_best_kept:
  "\<forall>x\<in>set rest. shape_h x * shape_w x \<le> s \<Longrightarrow> select_best rest (Some f, s) = Some f"
  by (induction rest) (auto simp: Let_def)

lemma select_best_first:
  "0 < shape_h f * shape_w f \<Longrightarrow>
   \<forall>x\<in>set rest. shape_h x * shape_w x \<le> shape_h f * shape_w f \<Longrightarrow>
     select_best (f # rest) (None, 0) = Some f"
  by (simp add: select_best_kept)

lemma str_digit: "n < 10 \<Longrightarrow> str n = [digit n]"
  by (simp add: str.simps)

text \<open>
  C2. With three crops in the buffer, two of which match above 0.65 while the third
  matches neither of them, the enrolment appends exactly one identity to the gallery,
  named after the counter, and empties the buffer. The template is the normalised crop
  of the member of the pair that comes first in the buffer: the groups hold crops that
  are already resized to 80 by 80, so the scan for the largest \<open>h * w\<close> sees equal
  areas and keeps the first member, whatever the sizes of the original crops. In the
  witness the larger crop of the pair comes second and the template is taken from the
  smaller one.
\<close>

theorem enrolment_keeps_earlier_of_pair:
  assumes buf: "unknown_faces_buffer st = [x0, x1, x2]"
    and idx: "i < j" "j < 3" "k < 3" "k \<noteq> i" "k \<noteq> j"
    and pair: "matchTemplate_max cv (to_gray_80 cv ([x0, x1, x2] ! j))
                 (to_gray_80 cv ([x0, x1, x2] ! i)) > 65 / 100"
    and ki: "matchTemplate_max cv (to_gray_80 cv ([x0, x1, x2] ! k))
                 (to_gray_80 cv ([x0, x1, x2] ! i)) \<le> 65 / 100"
            "matchTemplate_max cv (to_gray_80 cv ([x0, x1, x2] ! i))
                 (to_gray_80 cv ([x0, x1, x2] ! k)) \<le> 65 / 100"
    and kj: "matchTemplate_max cv (to_gray_80 cv ([x0, x1, x2] ! k))
                 (to_gray_80 cv ([x0, x1, x2] ! j)) \<le> 65 / 100"
            "matchTemplate_max cv (to_gray_80 cv ([x0, x1, x2] ! j))
                 (to_gray_80 cv ([x0, x1, x2] ! k)) \<le> 65 / 100"
  shows "process_unknown_faces cv st =
           (st\<lparr>next_person_id := next_person_id st + 1,
               known_faces := known_faces st @
                 [to_gray_80 cv (cvtColor_GRAY2BGR cv (to_gray_80 cv ([x0, x1, x2] ! i)))],
               known_face_names := known_face_names st @ [''Person_'' @ str (next_person_id st)],
               unknown_faces_buffer := []\<rparr>, None)"
proof -
  from idx consider "i = 0 \<and> j = 1 \<and> k = 2" | "i = 0 \<and> j = 2 \<and> k = 1" | "i = 1 \<and> j = 2 \<and> k = 0"
    by linarith
  then show ?thesis
  proof cases
    case 1
    with pair ki kj show ?thesis
      by (simp add: process_unknown_faces_def buf BUFFER_SIZE_def add_new_person_def)
  next
    case 2
    with pair ki kj show ?thesis
      by (simp add: process_unknown_faces_def buf BUFFER_SIZE_def add_new_person_def)
  next
    case 3
    with pair ki kj show ?thesis
      by (simp add: process_unknown_faces_def buf BUFFER_SIZE_def add_new_person_def)
  qed
qed

theorem enrolment_keeps_earlier_of_pair_witness:
  "shape_h crop_a * shape_w crop_a < shape_h crop_b * shape_w crop_b
   \<and> matchTemplate_max stub_cv (to_gray_80 stub_cv crop_b) (to_gray_80 stub_cv crop_a) = 8 / 10
   \<and> process_unknown_faces stub_cv (init_app\<lparr>unknown_faces_buffer := [crop_a, crop_b, crop_c]\<rparr>)
     = (init_app\<lparr>next_person_id := 2,
                 known_faces := [picture 80 80 [5, 3]],
                 known_face_names := [''Person_1''],
                 unknown_faces_buffer := []\<rparr>, None)"
proof -
  let ?st = "init_app\<lparr>unknown_faces_buffer := [crop_a, crop_b, crop_c]\<rparr>"
  have buf: "unknown_faces_buffer ?st = [crop_a, crop_b, crop_c]" by simp
  have g: "to_gray_80 stub_cv crop_a = picture 80 80 [5, 3]"
    "to_gray_80 stub_cv crop_b = picture 80 80 [5, 4]"
    "to_gray_80 stub_cv crop_c = picture 80 80 [9, 9]"
    "to_gray_80 stub_cv (cvtColor_GRAY2BGR stub_cv (picture 80 80 [5, 3])) = picture 80 80 [5, 3]"
    by (simp_all add: to_gray_80_def resize_def stub_cv_def crop_a_def crop_b_def crop_c_def
        picture_def)
  have sc: "matchTemplate_max stub_cv (picture 80 80 [5, 4]) (picture 80 80 [5, 3]) = 8 / 10"
    "matchTemplate_max stub_cv (picture 80 80 [9, 9]) (picture 80 80 [5, 3]) = 0"
    "matchTemplate_max stub_cv (picture 80 80 [5, 3]) (picture 80 80 [9, 9]) = 0"
    "matchTemplate_max stub_cv (picture 80 80 [9, 9]) (picture 80 80 [5, 4]) = 0"
    "matchTemplate_max stub_cv (picture 80 80 [5, 4]) (picture 80 80 [9, 9]) = 0"
    by (simp_all add: stub_cv_def picture_def)
  have area: "shape_h crop_a * shape_w crop_a < shape_h crop_b * shape_w crop_b"
    by (simp add: crop_a_def crop_b_def picture_def)
  have "process_unknown_faces stub_cv ?st =
          (?st\<lparr>next_person_id := next_person_id ?st + 1,
               known_faces := known_faces ?st @
                 [to_gray_80 stub_cv (cvtColor_GRAY2BGR stub_cv
                    (to_gray_80 stub_cv ([crop_a, crop_b, crop_c] ! 0)))],
               known_face_names := known_face_names ?st @ [''Person_'' @ str (next_person_id ?st)],
               unknown_faces_buffer := []\<rparr>, None)"
    by (rule enrolment_keeps_earlier_of_pair [OF buf, of 0 1 2 stub_cv]) (simp_all add: g sc)
  then have run: "process_unknown_faces stub_cv ?st
     = (init_app\<lparr>next_person_id := 2,
                 known_faces := [picture 80 80 [5, 3]],
                 known_face_names := [''Person_1''],
                 unknown_faces_buffer := []\<rparr>, None)"
    by (simp add: g init_app_def str_digit digit_def)
  from area sc(1) run show ?thesis by (simp add: g)
qed

section \<open>What the steps of a frame leave unchanged\<close>

lemma add_new_person_outside: "outside_gallery (add_new_person cv face st) = outside_gallery st"
  by (simp add: add_new_person_def outside_gallery_def Let_def)

lemma enrol_groups_outside: "outside_gallery (fst (enrol_groups cv gs st)) = outside_gallery st"
  by (induction gs arbitrary: st) (auto simp: add_new_person_outside split: option.splits)

lemma enrol_groups_buffer:
  "unknown_faces_buffer (fst (enrol_groups cv gs st)) = unknown_faces_buffer st"
  by (induction gs arbitrary: st) (auto simp: add_new_person_def Let_def split: option.splits)

lemma process_unknown_faces_outside:
  "outside_gallery (fst (process_unknown_faces cv st)) = outside_gallery st"
proof -
  have "outside_gallery (st'\<lparr>unknown_faces_buffer := b\<rparr>) = outside_gallery st'" for st' b
    by (simp add: outside_gallery_def)
  then show ?thesis
    using enrol_groups_outside [of cv _ st]
    by (auto simp: process_unknown_faces_def split: sum.splits prod.splits option.splits)
       (metis fst_conv)+
qed

lemma process_face_outside:
  "process_face cv now d st = Inr st' \<Longrightarrow> outside_gate st' = outside_gate st"
  by (auto simp: process_face_def Let_def outside_gate_def split: sum.splits if_splits)

lemma process_faces_outside:
  "outside_gate (fst (process_faces cv now ds st)) = outside_gate st"
  by (induction ds arbitrary: st) (auto simp: process_face_outside split: sum.splits)

section \<open>The producer's side of the frame queue\<close>

lemma process_frame_queue:
  "process_frame cv e st = (st', None) \<Longrightarrow>
     frame_queue st' = put_frame (frame_queue st) (frame_rgb e)"
proof -
  assume run: "process_frame cv e st = (st', None)"
  have q1: "frame_queue (fst (process_unknown_faces cv st)) = frame_queue st"
    using process_unknown_faces_outside [of cv st] by (simp add: outside_gallery_def)
  have q2: "frame_queue (fst (process_faces cv now ds s)) = frame_queue s" for now ds s
    using process_faces_outside [of cv now ds s] by (simp add: outside_gate_def)
  show ?thesis
  proof (cases "current_time e - last_process_time st > PROCESS_INTERVAL")
    case True
    obtain s1 r1 where u: "process_unknown_faces cv st = (s1, r1)" by (cases "process_unknown_faces cv st")
    obtain s2 r2 where f: "process_faces cv (current_time e) (faces e) (s1\<lparr>last_process_time := current_time e\<rparr>) = (s2, r2)"
      by (cases "process_faces cv (current_time e) (faces e) (s1\<lparr>last_process_time := current_time e\<rparr>)")
    from q1 u have a: "frame_queue s1 = frame_queue st" by simp
    from q2 [of "current_time e" "faces e" "s1\<lparr>last_process_time := current_time e\<rparr>"] f
    have b: "frame_queue s2 = frame_queue s1" by simp
    from run True u f a b show ?thesis
      by (auto simp: process_frame_def split: if_splits option.splits)
  next
    case False
    obtain s2 r2 where f: "process_faces cv (current_time e) (faces e) st = (s2, r2)"
      by (cases "process_faces cv (current_time e) (faces e) st")
    from q2 [of "current_time e" "faces e" st] f
    have b: "frame_queue s2 = frame_queue st" by simp
    from run False f b show ?thesis
      by (auto simp: process_frame_def split: if_splits option.splits)
  qed
qed

text \<open>
  C6, as stated, fails: with five frames queued the producer leaves the queue as it is.
  The new frame is not queued and the oldest frame stays.
\<close>

theorem put_frame_full_counterexample:
  "put_frame [1, 2, 3, 4, 5] (6 :: nat) = [1, 2, 3, 4, 5]"
  by (simp add: put_frame_def frame_queue_maxlen_def)

text \<open>
  C6, amended. The producer never waits for the consumer. After a frame that is
  processed without an exception the queue is the old queue with the new frame appended
  when fewer than \<open>frame_queue_maxlen\<close> (5) frames were queued; when the queue was full it
  is unchanged and the new frame is discarded.
\<close>

theorem full_frame_queue_keeps_old_frames:
  "process_frame cv e st = (st', None) \<Longrightarrow>
     frame_queue st' =
       (if length (frame_queue st) < frame_queue_maxlen then frame_queue st @ [frame_rgb e]
        else frame_queue st)"
  by (simp add: process_frame_queue put_frame_def deque_append_def)

theorem full_frame_queue_keeps_old_frames_witness:
  "process_frame stub_cv quiet full_app = (full_app, None)
   \<and> length (frame_queue full_app) = frame_queue_maxlen
   \<and> frame_rgb quiet \<notin> set (frame_queue full_app)"
proof -
  have run: "process_frame stub_cv quiet full_app = (full_app, None)"
    by (simp add: process_frame_def quiet_def full_app_def init_app_def PROCESS_INTERVAL_def
        clean_up_def put_frame_def frame_queue_maxlen_def)
  have len: "length (frame_queue full_app) = frame_queue_maxlen"
    by (simp add: full_app_def frame_queue_maxlen_def)
  have new: "frame_rgb quiet \<notin> set (frame_queue full_app)"
    by (simp add: full_app_def quiet_def picture_def)
  from full_frame_queue_keeps_old_frames [OF run] run len new show ?thesis by simp
qed

section \<open>The duplicate gate over a run\<close>

lemma distance_commute: "distance a b c d = distance c d a b"
  by (simp add: distance_def power2_commute)

lemma near_iff:
  "distance cx cy sx sy < DISTANCE_THRESHOLD \<longleftrightarrow> (cx - sx)\<^sup>2 + (cy - sy)\<^sup>2 < 2500"
proof -
  have "sqrt (real_of_int ((cx - sx)\<^sup>2 + (cy - sy)\<^sup>2)) < 50 \<longleftrightarrow>
        sqrt (real_of_int ((cx - sx)\<^sup>2 + (cy - sy)\<^sup>2)) < sqrt 2500"
    by simp
  also have "\<dots> \<longleftrightarrow> real_of_int ((cx - sx)\<^sup>2 + (cy - sy)\<^sup>2) < 2500"
    by (rule real_sqrt_less_iff)
  also have "\<dots> \<longleftrightarrow> (cx - sx)\<^sup>2 + (cy - sy)\<^sup>2 < 2500"
    by linarith
  finally show ?thesis by (simp add: distance_def DISTANCE_THRESHOLD_def)
qed

lemma save_face_iff:
  "save_face si cx cy now sf \<longleftrightarrow>
     (\<forall>(sx, sy, t)\<in>set sf. \<not> (distance cx cy sx sy < DISTANCE_THRESHOLD \<and> now - t < si))"
  by (induction si cx cy now sf rule: save_face.induct) auto

lemma no_conflicts_append:
  "no_conflicts si (xs @ [n]) \<longleftrightarrow> no_conflicts si xs \<and> (\<forall>a\<in>set xs. \<not> conflict si a n)"
  by (induction xs) (auto simp: list_all_iff)

lemma gate_inv_mono: "lo \<le> lo' \<Longrightarrow> gate_inv si lo st \<Longrightarrow> gate_inv si lo' st"
  by (fastforce simp: gate_inv_def)

lemma gate_inv_cong:
  "saved_faces a = saved_faces b \<Longrightarrow> accepted_log a = accepted_log b \<Longrightarrow>
     gate_inv si lo a = gate_inv si lo b"
  by (simp add: gate_inv_def)

lemma gate_inv_accept:
  assumes inv: "gate_inv si lo st" and lo: "lo \<le> now"
    and ok: "save_face si cx cy now (saved_faces st)"
    and saved: "saved_faces st' = saved_faces st @ [(cx, cy, now)]"
    and logged: "accepted_log st' = accepted_log st @ [(cx, cy, now)]"
  shows "gate_inv si now st'"
proof -
  have free: "\<not> conflict si a (cx, cy, now)" if a: "a \<in> set (accepted_log st)" for a
  proof -
    obtain x y t where axyt: "a = (x, y, t)" by (cases a)
    from inv a axyt have t: "t \<le> lo" and c: "(x, y, t) \<in> set (saved_faces st) \<or> si \<le> lo - t"
      by (auto simp: gate_inv_def)
    from c show ?thesis
    proof
      assume "(x, y, t) \<in> set (saved_faces st)"
      with ok have "\<not> (distance cx cy x y < DISTANCE_THRESHOLD \<and> now - t < si)"
        by (auto simp: save_face_iff)
      moreover have "\<bar>t - now\<bar> = now - t" using t lo by simp
      ultimately show ?thesis by (simp add: conflict_def axyt distance_commute [of x y cx cy])
    next
      assume "si \<le> lo - t"
      then have "si \<le> \<bar>t - now\<bar>" using t lo by simp
      then show ?thesis by (simp add: conflict_def axyt)
    qed
  qed
  have "no_conflicts si (accepted_log st @ [(cx, cy, now)])"
    using inv free by (simp add: no_conflicts_append gate_inv_def)
  moreover have "\<forall>(x, y, t)\<in>set (accepted_log st @ [(cx, cy, now)]).
      t \<le> now \<and> ((x, y, t) \<in> set (saved_faces st @ [(cx, cy, now)]) \<or> si \<le> now - t)"
    using inv lo by (fastforce simp: gate_inv_def)
  ultimately show ?thesis by (simp add: gate_inv_def saved logged)
qed

lemma process_face_interval:
  "process_face cv now d st = Inr st' \<Longrightarrow> SAVE_INTERVAL st' = SAVE_INTERVAL st"
  using process_face_outside [of cv now d st st'] by (simp add: outside_gate_def)

lemma process_face_inv:
  assumes run: "process_face cv now d st = Inr st'" and lo: "lo \<le> now"
    and inv: "gate_inv (SAVE_INTERVAL st) lo st"
  shows "gate_inv (SAVE_INTERVAL st) now st'"
proof -
  let ?cx = "det_x d + det_w d div 2" and ?cy = "det_y d + det_h d div 2"
  show ?thesis
  proof (cases "save_face (SAVE_INTERVAL st) ?cx ?cy now (saved_faces st)")
    case True
    have "saved_faces st' = saved_faces st @ [(?cx, ?cy, now)]"
      and "accepted_log st' = accepted_log st @ [(?cx, ?cy, now)]"
      using run True by (auto simp: process_face_def Let_def split: sum.splits if_splits)
    with inv lo True show ?thesis by (rule gate_inv_accept)
  next
    case False
    then have "st' = st"
      using run by (auto simp: process_face_def Let_def split: sum.splits if_splits)
    with gate_inv_mono [OF lo inv] show ?thesis by simp
  qed
qed

lemma process_faces_inv:
  "lo \<le> now \<Longrightarrow> gate_inv (SAVE_INTERVAL st) lo st \<Longrightarrow>
     gate_inv (SAVE_INTERVAL st) now (fst (process_faces cv now ds st))"
proof (induction ds arbitrary: st lo)
  case Nil
  then show ?case by (simp add: gate_inv_mono)
next
  case (Cons d ds)
  show ?case
  proof (cases "process_face cv now d st")
    case (Inl e)
    with Cons.prems show ?thesis by (simp add: gate_inv_mono)
  next
    case (Inr st')
    from process_face_inv [OF Inr Cons.prems] process_face_interval [OF Inr]
    have "gate_inv (SAVE_INTERVAL st') now st'" by simp
    from Cons.IH [OF order_refl this] Inr process_face_interval [OF Inr]
    show ?thesis by simp
  qed
qed

lemma gate_inv_clean_up:
  "gate_inv si now st \<Longrightarrow>
     gate_inv si now (st\<lparr>saved_faces := clean_up si now (saved_faces st), frame_queue := q\<rparr>)"
  by (fastforce simp: gate_inv_def clean_up_def)

lemma process_unknown_faces_gate:
  "saved_faces (fst (process_unknown_faces cv st)) = saved_faces st"
  "accepted_log (fst (process_unknown_faces cv st)) = accepted_log st"
  "SAVE_INTERVAL (fst (process_unknown_faces cv st)) = SAVE_INTERVAL st"
  using process_unknown_faces_outside [of cv st] by (simp_all add: outside_gallery_def)

lemma process_faces_interval:
  "SAVE_INTERVAL (fst (process_faces cv now ds st)) = SAVE_INTERVAL st"
  using process_faces_outside [of cv now ds st] by (simp add: outside_gate_def)

lemma process_frame_inv:
  assumes lo: "lo \<le> current_time e" and inv: "gate_inv (SAVE_INTERVAL st) lo st"
  shows "gate_inv (SAVE_INTERVAL st) (current_time e) (fst (process_frame cv e st))
         \<and> SAVE_INTERVAL (fst (process_frame cv e st)) = SAVE_INTERVAL st"
proof (cases "prepare_raises e")
  case True
  then show ?thesis using gate_inv_mono [OF lo inv] by (simp add: process_frame_def)
next
  case False
  let ?now = "current_time e"
  define st0 where "st0 = (if ?now - last_process_time st > PROCESS_INTERVAL
      then (case process_unknown_faces cv st of
              (st1, None) \<Rightarrow> (st1\<lparr>last_process_time := ?now\<rparr>, None)
            | (st1, Some err) \<Rightarrow> (st1, Some err))
      else (st, None))"
  have fields: "saved_faces (fst st0) = saved_faces st" "accepted_log (fst st0) = accepted_log st"
    "SAVE_INTERVAL (fst st0) = SAVE_INTERVAL st"
    using process_unknown_faces_gate [of cv st]
    by (auto simp: st0_def split: prod.splits option.splits)
  then have inv0: "gate_inv (SAVE_INTERVAL (fst st0)) lo (fst st0)"
    using inv gate_inv_cong [of "fst st0" st] by simp
  obtain s1 r1 where st0: "st0 = (s1, r1)" by (cases st0)
  show ?thesis
  proof (cases r1)
    case (Some err)
    then have "process_frame cv e st = (s1, Some err)"
      using False st0 by (simp add: process_frame_def st0_def [symmetric])
    with fields inv0 st0 gate_inv_mono [OF lo] show ?thesis by simp
  next
    case None
    obtain s2 r2 where f: "process_faces cv ?now (faces e) s1 = (s2, r2)"
      by (cases "process_faces cv ?now (faces e) s1")
    from process_faces_inv [OF lo, of s1 cv "faces e"] inv0 st0 f
    have inv2: "gate_inv (SAVE_INTERVAL s1) ?now s2" by simp
    from process_faces_interval [of cv ?now "faces e" s1] f
    have si2: "SAVE_INTERVAL s2 = SAVE_INTERVAL s1" by simp
    have si1: "SAVE_INTERVAL s1 = SAVE_INTERVAL st" using fields st0 by simp
    show ?thesis
    proof (cases r2)
      case (Some err)
      then have "process_frame cv e st = (s2, Some err)"
        using False st0 None f by (simp add: process_frame_def st0_def [symmetric])
      with inv2 si2 si1 show ?thesis by simp
    next
      case None2: None
      have "process_frame cv e st =
          (s2\<lparr>saved_faces := clean_up (SAVE_INTERVAL s2) ?now (saved_faces s2),
              frame_queue := put_frame (frame_queue s2) (frame_rgb e)\<rparr>, None)"
        using False st0 None None2 f by (simp add: process_frame_def st0_def [symmetric])
      with gate_inv_clean_up [of "SAVE_INTERVAL s2" ?now s2] inv2 si2 si1
      show ?thesis by simp
    qed
  qed
qed

lemma session_steps_gate [simp]:
  "gate_inv si lo (count_error st) = gate_inv si lo st"
  "gate_inv si lo (stop_detection st) = gate_inv si lo st"
  "gate_inv si lo (st\<lparr>cap := c\<rparr>) = gate_inv si lo st"
  "gate_inv si lo (st\<lparr>camera_error_count := n\<rparr>) = gate_inv si lo st"
  "SAVE_INTERVAL (count_error st) = SAVE_INTERVAL st"
  "SAVE_INTERVAL (stop_detection st) = SAVE_INTERVAL st"
  by (simp_all add: gate_inv_def count_error_def stop_detection_def)

lemma on_exception_gate [simp]:
  "gate_inv si lo (fst (on_exception st)) = gate_inv si lo st"
  "SAVE_INTERVAL (fst (on_exception st)) = SAVE_INTERVAL st"
  by (simp_all add: on_exception_def Let_def)

lemma read_and_process_inv:
  assumes lo: "lo \<le> current_time e" and inv: "gate_inv (SAVE_INTERVAL st) lo st"
  shows "gate_inv (SAVE_INTERVAL st) (current_time e) (fst (read_and_process cv e st))
         \<and> SAVE_INTERVAL (fst (read_and_process cv e st)) = SAVE_INTERVAL st"
proof (cases "read_ok e")
  case False
  then show ?thesis using gate_inv_mono [OF lo inv]
    by (simp add: read_and_process_def Let_def)
next
  case True
  from inv have "gate_inv (SAVE_INTERVAL (st\<lparr>camera_error_count := 0\<rparr>)) lo
                   (st\<lparr>camera_error_count := 0\<rparr>)" by simp
  from process_frame_inv [OF lo this, of cv] True show ?thesis
    by (auto simp: read_and_process_def split: prod.splits option.splits)
qed

lemma loop_body_inv:
  assumes lo: "lo \<le> current_time e" and inv: "gate_inv (SAVE_INTERVAL st) lo st"
  shows "gate_inv (SAVE_INTERVAL st) (current_time e) (fst (loop_body cv e st))
         \<and> SAVE_INTERVAL (fst (loop_body cv e st)) = SAVE_INTERVAL st"
proof -
  have a: "gate_inv (SAVE_INTERVAL st) (current_time e) (fst (read_and_process cv e st))
         \<and> SAVE_INTERVAL (fst (read_and_process cv e st)) = SAVE_INTERVAL st"
    by (rule read_and_process_inv [OF lo inv])
  let ?st1 = "st\<lparr>cap := Some (pre_open_ok e), camera_error_count := 0\<rparr>"
  from inv have "gate_inv (SAVE_INTERVAL ?st1) lo ?st1" by simp
  from read_and_process_inv [OF lo this, of cv]
  have b: "gate_inv (SAVE_INTERVAL st) (current_time e) (fst (read_and_process cv e ?st1))
         \<and> SAVE_INTERVAL (fst (read_and_process cv e ?st1)) = SAVE_INTERVAL st"
    by simp
  show ?thesis using a b gate_inv_mono [OF lo inv]
    by (auto simp: loop_body_def Let_def)
qed

lemma detection_loop_inv:
  "sorted (lo # map current_time es) \<Longrightarrow> gate_inv (SAVE_INTERVAL st) lo st \<Longrightarrow>
     \<exists>lo'. gate_inv (SAVE_INTERVAL st) lo' (detection_loop cv es st)"
proof (induction es arbitrary: lo st)
  case Nil
  then show ?case by auto
next
  case (Cons e es)
  show ?case
  proof (cases "running st")
    case False
    with Cons.prems show ?thesis by auto
  next
    case True
    obtain st' fl where b: "loop_body cv e st = (st', fl)" by (cases "loop_body cv e st")
    from Cons.prems have lo: "lo \<le> current_time e" by simp
    from loop_body_inv [OF lo Cons.prems(2), of cv] b
    have inv': "gate_inv (SAVE_INTERVAL st') (current_time e) st'"
      and si: "SAVE_INTERVAL st' = SAVE_INTERVAL st" by simp_all
    show ?thesis
    proof (cases fl)
      case Return
      with True b inv' si show ?thesis by auto
    next
      case Continue
      from Cons.prems have "sorted (current_time e # map current_time es)" by simp
      from Cons.IH [OF this inv', of] obtain lo' where
        "gate_inv (SAVE_INTERVAL st') lo' (detection_loop cv es st')" by blast
      with True b Continue si show ?thesis by auto
    qed
  qed
qed

lemma process_face_gate:
  assumes "process_face cv now d st = Inr st'"
  shows "if save_face (SAVE_INTERVAL st) (det_x d + det_w d div 2) (det_y d + det_h d div 2) now
            (saved_faces st)
         then saved_faces st' = saved_faces st @
                [(det_x d + det_w d div 2, det_y d + det_h d div 2, now)] \<and>
              accepted_log st' = accepted_log st @
                [(det_x d + det_w d div 2, det_y d + det_h d div 2, now)]
         else st' = st"
  using assms by (auto simp: process_face_def Let_def split: sum.splits if_splits)

lemma started: "start_detection True init_app = init_app\<lparr>running := True, cap := Some True\<rparr>"
  by (simp add: start_detection_def init_app_def)

lemma init_fields:
  "saved_faces init_app = []" "accepted_log init_app = []" "SAVE_INTERVAL init_app = 3"
  "known_faces init_app = []" "last_process_time init_app = 0" "frame_queue init_app = []"
  "unknown_faces_buffer init_app = []"
  by (simp_all add: init_app_def)

lemma recognise_empty_gallery: "known_faces st = [] \<Longrightarrow> recognise cv st d = Inr ''Unknown''"
  by (simp add: recognise_def)

text \<open>
  C1, as stated, fails for sequences whose timestamps step back and for runs in which
  the save interval is changed. With frames stamped 10, 13 and 11 the sighting of time
  10 is pruned at 13 and the same face is accepted again at 11, one second after the
  first. With the interval at 3, a sighting of time 1 is pruned at 4; after the slider
  has moved the interval to 10 the same face is accepted at 5.
\<close>

theorem clock_or_interval_change_counterexample:
  "accepted_log (detection_loop stub_cv
      [frame_with 10 [face_at 100 100 [5, 3]], frame_with 13 [],
       frame_with 11 [face_at 100 100 [5, 3]]] (start_detection True init_app))
     = [(160, 160, 10), (160, 160, 11)]
   \<and> \<not> no_conflicts 3 [(160, 160, 10), (160, 160, 11)]
   \<and> accepted_log (detection_loop stub_cv [frame_with 5 [face_at 100 100 [5, 3]]]
        (update_save_interval 10
          (detection_loop stub_cv [frame_with 1 [face_at 100 100 [5, 3]], frame_with 4 []]
             (start_detection True init_app))))
     = [(160, 160, 1), (160, 160, 5)]
   \<and> \<not> no_conflicts 10 [(160, 160, 1), (160, 160, 5)]"
  by (simp add: started frame_with_def face_at_def init_fields loop_body_def
      read_and_process_def process_frame_def process_face_def recognise_empty_gallery
      PROCESS_INTERVAL_def near_iff clean_up_def put_frame_def deque_append_def
      frame_queue_maxlen_def update_save_interval_def process_unknown_faces_def
      BUFFER_SIZE_def conflict_def)

text \<open>
  C1, amended. In every run of the detection loop that starts with no accepted
  sighting, with frame timestamps that do not decrease and \<open>SAVE_INTERVAL\<close> not changed
  during the run, no two accepted sightings lie closer than \<open>DISTANCE_THRESHOLD\<close> (50) to
  each other with timestamps less than \<open>SAVE_INTERVAL\<close> apart. The gate accepts a
  detection exactly when no recorded sighting is both closer than the threshold and
  younger than the interval (\<open>save_face_iff\<close>), and an accepted detection is recorded as
  a new sighting (\<open>process_face_gate\<close>).
\<close>

theorem accepted_sightings_never_conflict:
  assumes fresh: "accepted_log st = []" and clock: "sorted (map current_time es)"
  shows "no_conflicts (SAVE_INTERVAL st) (accepted_log (detection_loop cv es st))"
proof (cases es)
  case Nil
  with fresh show ?thesis by simp
next
  case (Cons e es')
  have "gate_inv (SAVE_INTERVAL st) (current_time e) st"
    using fresh by (simp add: gate_inv_def)
  moreover have "sorted (current_time e # map current_time es)"
    using clock Cons by simp
  ultimately obtain lo' where "gate_inv (SAVE_INTERVAL st) lo' (detection_loop cv es st)"
    using detection_loop_inv by blast
  then show ?thesis by (simp add: gate_inv_def)
qed

lemma watch_log:
  "accepted_log (detection_loop stub_cv watch (start_detection True init_app))
     = [(160, 160, 1), (460, 160, 2), (160, 160, 5)]"
  by (simp add: started watch_def frame_with_def face_at_def init_fields loop_body_def
      read_and_process_def process_frame_def process_face_def recognise_empty_gallery
      PROCESS_INTERVAL_def near_iff clean_up_def put_frame_def deque_append_def
      frame_queue_maxlen_def)

theorem accepted_sightings_never_conflict_witness:
  "sorted (map current_time watch)
   \<and> accepted_log (detection_loop stub_cv watch (start_detection True init_app))
       = [(160, 160, 1), (460, 160, 2), (160, 160, 5)]
   \<and> no_conflicts 3 [(160, 160, 1), (460, 160, 2), (160, 160, 5)]"
proof -
  have fresh: "accepted_log (start_detection True init_app) = []"
    by (simp add: started init_fields)
  have clock: "sorted (map current_time watch)"
    by (simp add: watch_def frame_with_def)
  have si: "SAVE_INTERVAL (start_detection True init_app) = 3"
    by (simp add: started init_fields)
  from accepted_sightings_never_conflict [OF fresh clock, of stub_cv] clock watch_log si
  show ?thesis by simp
qed

section \<open>The camera error budget\<close>










section \<open>Frames that are processed without an exception\<close>












section \<open>Failed reads with a camera that opens again\<close>

lemma failed_read_reopened:
  "cap st = Some True \<Longrightarrow> \<not> read_ok e \<Longrightarrow> post_open_ok e \<Longrightarrow>
   camera_error_count st < max_camera_errors \<Longrightarrow>
     loop_body cv e st = ((count_error st)\<lparr>cap := Some True, camera_error_count := 0\<rparr>, Continue)"
  by (simp add: loop_body_def read_and_process_def over_budget_def count_error_def)









section \<open>The similarity scorer\<close>













end
